theory Spec2Isabelle
  imports Main
begin

section \<open>Python string primitives used by pyreset.py\<close>

text \<open>
  A Python \<open>str\<close> is modelled as a \<open>string\<close>, one \<open>char\<close> per code point
  (code points below 256). The three string operations of the script are
  \<open>sub in line\<close>, \<open>line.startswith(p)\<close> and \<open>line.split()\<close>.

  \<open>str.split()\<close> without argument separates at runs of whitespace, where whitespace
  is what \<open>str.isspace\<close> accepts: below 256 these are the code points
  0x09 to 0x0D, 0x1C to 0x1F, 0x20, 0x85 and 0xA0.
\<close>

definition is_space :: "char \<Rightarrow> bool" where
  "is_space c \<longleftrightarrow>
     c \<in> set [CHR 0x09, CHR 0x0A, CHR 0x0B, CHR 0x0C, CHR 0x0D,
              CHR 0x1C, CHR 0x1D, CHR 0x1E, CHR 0x1F, CHR 0x20, CHR 0x85, CHR 0xA0]"

text \<open>\<open>line.startswith(p)\<close>\<close>

fun startswith :: "string \<Rightarrow> string \<Rightarrow> bool" where
  "startswith s [] = True"
| "startswith [] (p # ps) = False"
| "startswith (c # cs) (p # ps) = (c = p \<and> startswith cs ps)"

text \<open>\<open>sub in line\<close>: the substring test, trying every start position from the left.\<close>

fun contains :: "string \<Rightarrow> string \<Rightarrow> bool" where
  "contains [] sub = (sub = [])"
| "contains (c # cs) sub = (startswith (c # cs) sub \<or> contains cs sub)"

text \<open>
  \<open>line.split()\<close>: skip whitespace, then take the maximal run of non-whitespace as a
  token, and go on behind it. No empty token is produced.
\<close>

function split :: "string \<Rightarrow> string list" where
  "split [] = []"
| "split (c # cs) =
     (if is_space c then split cs
      else (c # takeWhile (\<lambda>x. \<not> is_space x) cs) # split (dropWhile (\<lambda>x. \<not> is_space x) cs))"
  by pat_completeness auto
termination
proof (relation "measure length")
  fix c :: char and cs :: string
  have "length (dropWhile (\<lambda>x. \<not> is_space x) cs) \<le> length cs"
    by (rule length_dropWhile_le)
  then show "(dropWhile (\<lambda>x. \<not> is_space x) cs, c # cs) \<in> measure length"
    by simp
qed simp_all

section \<open>The Line Resetter\<close>

text \<open>
  \<^verbatim>\<open>
  def reset_stats_line(line, reset_type):
      if reset_type in line:
          parts = line.split()
          if len(parts) >= 4:
              return f"{parts[0]} 0 0 0\n"
      return line
  \<close>
  The index \<open>parts[0]\<close> is only read when \<open>parts\<close> has four elements or more.
\<close>

definition reset_stats_line :: "string \<Rightarrow> string \<Rightarrow> string" where
  "reset_stats_line line reset_type =
     (if contains line reset_type then
        (let parts = split line in
         if length parts \<ge> 4 then parts ! 0 @ '' 0 0 0\<newline>''
         else line)
      else line)"

section \<open>The Record Processor\<close>

text \<open>The four keyword arguments \<open>reset_day\<close>, \<open>reset_week\<close>, \<open>reset_month\<close>, \<open>reset_all\<close>.\<close>

record selector =
  reset_day :: bool
  reset_week :: bool
  reset_month :: bool
  reset_all :: bool

text \<open>The three local variables of the loop of \<open>process_userfile\<close>.\<close>

record scan =
  modified :: bool
  new_lines :: "string list"
  in_section :: bool

text \<open>
  The \<open>if\<close>/\<open>elif\<close> chain of lines 57 to 80: the first branch whose flag is set and
  whose prefix (the tag and one space) starts the line replaces the line by the result
  of the Line Resetter and sets \<open>modified\<close>; with no such branch both stay as they are.
\<close>

definition reset_dispatch :: "selector \<Rightarrow> string \<Rightarrow> bool \<Rightarrow> string \<times> bool" where
  "reset_dispatch sel line m =
     (if reset_day sel \<and> startswith line ''DAYUP '' then (reset_stats_line line ''DAYUP'', True)
      else if reset_day sel \<and> startswith line ''DAYDN '' then (reset_stats_line line ''DAYDN'', True)
      else if reset_week sel \<and> startswith line ''WKUP '' then (reset_stats_line line ''WKUP'', True)
      else if reset_week sel \<and> startswith line ''WKDN '' then (reset_stats_line line ''WKDN'', True)
      else if reset_month sel \<and> startswith line ''MONTHUP '' then (reset_stats_line line ''MONTHUP'', True)
      else if reset_month sel \<and> startswith line ''MONTHDN '' then (reset_stats_line line ''MONTHDN'', True)
      else if reset_all sel \<and> startswith line ''ALLUP '' then (reset_stats_line line ''ALLUP'', True)
      else if reset_all sel \<and> startswith line ''ALLDN '' then (reset_stats_line line ''ALLDN'', True)
      else (line, m))"

text \<open>One iteration of \<open>for line in lines\<close> (lines 42 to 82).\<close>

definition loop_body :: "selector \<Rightarrow> scan \<Rightarrow> string \<Rightarrow> scan" where
  "loop_body sel st line =
     (if contains line ''[SECTION]'' then
        st\<lparr>in_section := True, new_lines := new_lines st @ [line]\<rparr>
      else if contains line ''[ENDSECTION]'' then
        st\<lparr>in_section := False, new_lines := new_lines st @ [line]\<rparr>
      else if in_section st then
        (case reset_dispatch sel line (modified st) of
           (line', m) \<Rightarrow> st\<lparr>modified := m, new_lines := new_lines st @ [line']\<rparr>)
      else st\<lparr>new_lines := new_lines st @ [line]\<rparr>)"

text \<open>The loop, from the initial values of lines 38 to 40.\<close>

definition scan_lines :: "selector \<Rightarrow> string list \<Rightarrow> scan" where
  "scan_lines sel lines =
     foldl (loop_body sel) \<lparr>modified = False, new_lines = [], in_section = False\<rparr> lines"

text \<open>
  The Record Processor on a line sequence: what \<open>process_userfile\<close> computes between
  reading the file and writing it back, the new lines and the flag \<open>modified\<close>.
\<close>

definition process_lines :: "selector \<Rightarrow> string list \<Rightarrow> string list \<times> bool" where
  "process_lines sel lines = (let st = scan_lines sel lines in (new_lines st, modified st))"

section \<open>Files, and the batch loop of \<open>main\<close>\<close>

text \<open>
  A file is what \<open>readlines\<close> gives for it (an error, or its lines) and what
  opening it for writing and \<open>writelines\<close> do: they succeed, or raise an error and
  leave some lines behind in the file. An error carries its text, the \<open>{e}\<close> of the
  report. What the script prints and writes is kept as a list of events.
\<close>

datatype io_error = IOError string

fun message :: "io_error \<Rightarrow> string" where
  "message (IOError s) = s"

record file_state =
  readlines :: "io_error + string list"
  write_fails :: "(io_error \<times> string list) option"

type_synonym path = string
type_synonym filesystem = "path \<Rightarrow> file_state"

datatype event = Print string | Rewrite path "string list"

definition error_report :: "path \<Rightarrow> io_error \<Rightarrow> event" where
  "error_report userfile e = Print (''Error processing '' @ userfile @ '': '' @ message e)"

definition process_userfile ::
  "filesystem \<Rightarrow> path \<Rightarrow> selector \<Rightarrow> filesystem \<times> event list \<times> bool" where
  "process_userfile fs userfile sel =
     (case readlines (fs userfile) of
        Inl e \<Rightarrow> (fs, [error_report userfile e], False)
      | Inr lines \<Rightarrow>
          (case process_lines sel lines of
             (out, m) \<Rightarrow>
               if m then
                 (case write_fails (fs userfile) of
                    Some (e, left) \<Rightarrow>
                      (fs(userfile := (fs userfile)\<lparr>readlines := Inr left\<rparr>),
                       [error_report userfile e], False)
                  | None \<Rightarrow>
                      (fs(userfile := (fs userfile)\<lparr>readlines := Inr out\<rparr>),
                       [Rewrite userfile out], True))
               else (fs, [], False)))"

text \<open>
  Lines 185 to 189 of \<open>main\<close>: the loop over the user files with its counter
  \<open>success_count\<close>. The state is the file system, the events so far and the counter.
\<close>

fun batch ::
  "selector \<Rightarrow> path list \<Rightarrow> filesystem \<times> event list \<times> nat \<Rightarrow> filesystem \<times> event list \<times> nat" where
  "batch sel [] st = st"
| "batch sel (userfile # userfiles) (fs, evs, success_count) =
     (case process_userfile fs userfile sel of
        (fs', evs', ok) \<Rightarrow>
          batch sel userfiles
            (fs', evs @ evs', if ok then success_count + 1 else success_count))"

section \<open>The default selector of \<open>main\<close>\<close>

text \<open>
  The options of the command line that lines 153 to 171 read, and the two readings of
  the clock: \<open>now.weekday()\<close>, which Python numbers from Monday, 0, to Sunday, 6, and
  \<open>now.day\<close>.
\<close>

record args =
  opt_monday :: bool
  opt_day :: bool
  opt_week :: bool
  opt_month :: bool
  opt_alltime :: bool

datatype day_of_week = Monday | Tuesday | Wednesday | Thursday | Friday | Saturday | Sunday

record datetime =
  day_of_week :: day_of_week
  day :: int

fun weekday :: "datetime \<Rightarrow> int" where
  "weekday now =
     (case day_of_week now of
        Monday \<Rightarrow> 0 | Tuesday \<Rightarrow> 1 | Wednesday \<Rightarrow> 2 | Thursday \<Rightarrow> 3
      | Friday \<Rightarrow> 4 | Saturday \<Rightarrow> 5 | Sunday \<Rightarrow> 6)"

definition resolve_selector :: "args \<Rightarrow> datetime \<Rightarrow> selector \<times> event list" where
  "resolve_selector a now =
     (if \<not> (opt_day a \<or> opt_week a \<or> opt_month a \<or> opt_alltime a) then
        (let reset_week_day = (if opt_monday a then 0 else 6);
             w = (weekday now = reset_week_day);
             m = (day now = 1)
         in (\<lparr>reset_day = True, reset_week = w, reset_month = m, reset_all = opt_alltime a\<rparr>,
             (if w then [Print ''Weekly reset triggered''] else []) @
             (if m then [Print ''Monthly reset triggered''] else [])))
      else
        (\<lparr>reset_day = opt_day a, reset_week = opt_week a, reset_month = opt_month a,
          reset_all = opt_alltime a\<rparr>, []))"

section \<open>The eight prefix tokens and their flags\<close>

text \<open>
  The pairs of the \<open>if\<close>/\<open>elif\<close> chain of \<open>process_userfile\<close>, in its order: each
  prefix token with the flag that the same branch tests.
\<close>

definition prefix_flags :: "(string \<times> (selector \<Rightarrow> bool)) list" where
  "prefix_flags =
     [(''DAYUP'', reset_day), (''DAYDN'', reset_day),
      (''WKUP'', reset_week), (''WKDN'', reset_week),
      (''MONTHUP'', reset_month), (''MONTHDN'', reset_month),
      (''ALLUP'', reset_all), (''ALLDN'', reset_all)]"

section \<open>Errors of a record, and test data\<close>

text \<open>
  Processing \<open>userfile\<close> raises the error \<open>e\<close> inside the \<open>try\<close> block: reading
  the file raises it, or the file is read, the loop sets \<open>modified\<close> and writing the file
  back raises it.
\<close>

definition raises_io_error :: "filesystem \<Rightarrow> path \<Rightarrow> selector \<Rightarrow> io_error \<Rightarrow> bool" where
  "raises_io_error fs userfile sel e \<longleftrightarrow>
     (case readlines (fs userfile) of
        Inl e' \<Rightarrow> e' = e
      | Inr lines \<Rightarrow>
          snd (process_lines sel lines) \<and>
          (case write_fails (fs userfile) of Some (e', left) \<Rightarrow> e' = e | None \<Rightarrow> False))"

text \<open>Selectors and records of the examples.\<close>

definition day_only :: selector where
  "day_only = \<lparr>reset_day = True, reset_week = False, reset_month = False, reset_all = False\<rparr>"

definition week_only :: selector where
  "week_only = \<lparr>reset_day = False, reset_week = True, reset_month = False, reset_all = False\<rparr>"

definition example_record :: "string list" where
  "example_record =
     [''[SECTION]\<newline>'', ''DAYUP 1 2 3\<newline>'', ''[ENDSECTION]\<newline>'', ''DAYUP 1 2 3\<newline>'']"

definition already_reset :: "string list" where
  "already_reset = [''[SECTION]\<newline>'', ''DAYUP 0 0 0\<newline>'', ''[ENDSECTION]\<newline>'']"

text \<open>A record whose counter line has a tab, not a space, behind the tag.\<close>

definition tab_record :: "string list" where
  "tab_record = [''[SECTION]\<newline>'', ''DAYUP'' @ [CHR 0x09] @ ''1 2 3\<newline>'']"

text \<open>Test data: a file that cannot be read, one that cannot be written, and sound files.\<close>

definition fs_example :: filesystem where
  "fs_example p =
     (if p = ''a'' then \<lparr>readlines = Inl (IOError ''denied''), write_fails = None\<rparr>
      else if p = ''b'' then
        \<lparr>readlines = Inr [''[SECTION]\<newline>'', ''DAYUP 1 2 3\<newline>''],
         write_fails = Some (IOError ''full'', [])\<rparr>
      else \<lparr>readlines = Inr [''[SECTION]\<newline>'', ''DAYUP 1 2 3\<newline>''], write_fails = None\<rparr>)"

section \<open>Marker lines and selected lines\<close>

text \<open>
  Two tests that the loop body makes, named for the statements about the loop: the line
  is a marker line (one of the first two tests of the loop body holds), and some branch
  of the dispatch is taken for the line (its flag is set and its prefix starts the line).
\<close>

definition is_marker :: "string \<Rightarrow> bool" where
  "is_marker line \<longleftrightarrow> contains line ''[SECTION]'' \<or> contains line ''[ENDSECTION]''"

definition selected :: "selector \<Rightarrow> string \<Rightarrow> bool" where
  "selected sel line \<longleftrightarrow>
     (\<exists>(tag, flag)\<in>set prefix_flags. flag sel \<and> startswith line (tag @ '' ''))"

section \<open>Properties of the string primitives\<close>

lemma startswith_iff: "startswith s p \<longleftrightarrow> (\<exists>r. s = p @ r)"
  by (induction s p rule: startswith.induct) auto

lemma contains_iff: "contains s sub \<longleftrightarrow> (\<exists>us vs. s = us @ sub @ vs)"
proof (induction s)
  case Nil
  show ?case by simp
next
  case (Cons c cs)
  show ?case
  proof
    assume "contains (c # cs) sub"
    then consider "startswith (c # cs) sub" | "contains cs sub" by auto
    then show "\<exists>us vs. c # cs = us @ sub @ vs"
    proof cases
      case 1
      then obtain r where "c # cs = sub @ r" by (auto simp: startswith_iff)
      then have "c # cs = [] @ sub @ r" by simp
      then show ?thesis by blast
    next
      case 2
      then obtain us vs where "cs = us @ sub @ vs" using Cons by blast
      then have "c # cs = (c # us) @ sub @ vs" by simp
      then show ?thesis by blast
    qed
  next
    assume "\<exists>us vs. c # cs = us @ sub @ vs"
    then obtain us vs where e: "c # cs = us @ sub @ vs" by blast
    show "contains (c # cs) sub"
    proof (cases us)
      case Nil
      with e have "startswith (c # cs) sub" by (auto simp: startswith_iff)
      then show ?thesis by simp
    next
      case (Cons u us')
      with e have "cs = us' @ sub @ vs" by simp
      then have "contains cs sub" using Cons.IH by blast
      then show ?thesis by simp
    qed
  qed
qed

lemma split_first_token:
  "split s \<noteq> [] \<Longrightarrow> split s ! 0 = takeWhile (\<lambda>x. \<not> is_space x) (dropWhile is_space s)"
  by (induction s) auto

section \<open>Properties of the loop\<close>

lemma fst_reset_dispatch: "fst (reset_dispatch sel line m) = fst (reset_dispatch sel line m')"
  by (simp add: reset_dispatch_def)

lemma new_lines_loop_body:
  "new_lines (loop_body sel st line) =
     new_lines st @
     [if contains line ''[SECTION]'' \<or> contains line ''[ENDSECTION]'' \<or> \<not> in_section st
      then line else fst (reset_dispatch sel line (modified st))]"
  by (simp add: loop_body_def split: prod.split)

lemma in_section_loop_body:
  "in_section (loop_body sel st line) =
     (if contains line ''[SECTION]'' then True
      else if contains line ''[ENDSECTION]'' then False else in_section st)"
  by (simp add: loop_body_def split: prod.split)

lemma modified_loop_body:
  "modified (loop_body sel st line) =
     (if contains line ''[SECTION]'' \<or> contains line ''[ENDSECTION]'' \<or> \<not> in_section st
      then modified st else snd (reset_dispatch sel line (modified st)))"
  by (simp add: loop_body_def split: prod.split)

lemma new_lines_foldl:
  "\<exists>ys. new_lines (foldl (loop_body sel) st ls) = new_lines st @ ys \<and> length ys = length ls"
proof (induction ls arbitrary: st)
  case Nil
  show ?case by simp
next
  case (Cons l ls)
  obtain ys where ys: "new_lines (foldl (loop_body sel) (loop_body sel st l) ls) =
      new_lines (loop_body sel st l) @ ys" "length ys = length ls"
    using Cons [of "loop_body sel st l"] by blast
  obtain y where y: "new_lines (loop_body sel st l) = new_lines st @ [y]"
    using new_lines_loop_body [of sel st l] by blast
  have "new_lines (foldl (loop_body sel) st (l # ls)) = new_lines st @ (y # ys)"
    using ys y by simp
  moreover have "length (y # ys) = length (l # ls)"
    using ys by simp
  ultimately show ?case by blast
qed

lemma length_scan_lines: "length (new_lines (scan_lines sel ls)) = length ls"
  using new_lines_foldl [of sel "\<lparr>modified = False, new_lines = [], in_section = False\<rparr>" ls]
  by (auto simp: scan_lines_def)

lemma scan_lines_append:
  "scan_lines sel (xs @ ys) = foldl (loop_body sel) (scan_lines sel xs) ys"
  by (simp add: scan_lines_def)

lemma nth_scan_lines:
  assumes "i < length ls"
  shows "new_lines (scan_lines sel ls) ! i =
           last (new_lines (loop_body sel (scan_lines sel (take i ls)) (ls ! i)))"
proof -
  let ?st = "scan_lines sel (take i ls)"
  have ls: "ls = take i ls @ (ls ! i # drop (Suc i) ls)"
    using assms by (simp add: id_take_nth_drop [symmetric])
  have "scan_lines sel ls = foldl (loop_body sel) ?st (ls ! i # drop (Suc i) ls)"
    using scan_lines_append [of sel "take i ls" "ls ! i # drop (Suc i) ls"] ls by simp
  then have run: "scan_lines sel ls =
      foldl (loop_body sel) (loop_body sel ?st (ls ! i)) (drop (Suc i) ls)"
    by simp
  obtain ys where ys: "new_lines (scan_lines sel ls) =
      new_lines (loop_body sel ?st (ls ! i)) @ ys"
    using new_lines_foldl [of sel "loop_body sel ?st (ls ! i)" "drop (Suc i) ls"] run by auto
  obtain y where y: "new_lines (loop_body sel ?st (ls ! i)) = new_lines ?st @ [y]"
    using new_lines_loop_body [of sel ?st "ls ! i"] by blast
  have len: "length (new_lines ?st) = i"
    using assms by (simp add: length_scan_lines)
  have "new_lines (scan_lines sel ls) ! i = y"
    using ys y len by (simp add: nth_append)
  then show ?thesis using y by simp
qed

lemma prefix_flags_cases:
  assumes "(tag, flag) \<in> set prefix_flags"
  shows "tag = ''DAYUP'' \<and> flag = reset_day \<or> tag = ''DAYDN'' \<and> flag = reset_day
    \<or> tag = ''WKUP'' \<and> flag = reset_week \<or> tag = ''WKDN'' \<and> flag = reset_week
    \<or> tag = ''MONTHUP'' \<and> flag = reset_month \<or> tag = ''MONTHDN'' \<and> flag = reset_month
    \<or> tag = ''ALLUP'' \<and> flag = reset_all \<or> tag = ''ALLDN'' \<and> flag = reset_all"
  using assms by (simp add: prefix_flags_def)

lemma dispatch_tagged:
  assumes "(tag, flag) \<in> set prefix_flags" and "startswith line (tag @ '' '')"
  shows "fst (reset_dispatch sel line m) = (if flag sel then reset_stats_line line tag else line)"
proof -
  obtain r where r: "line = tag @ '' '' @ r"
    using assms(2) by (auto simp: startswith_iff)
  show ?thesis
    using prefix_flags_cases [OF assms(1)] unfolding r
    by (elim disjE conjE) (simp_all add: reset_dispatch_def)
qed

text \<open>
  The same for a line that starts with the tag alone: only the branch of that tag can be
  taken, and it is taken when the flag is set and a space follows the tag.
\<close>

lemma dispatch_prefixed:
  assumes "(tag, flag) \<in> set prefix_flags" and "startswith line tag"
  shows "fst (reset_dispatch sel line m) =
     (if flag sel \<and> startswith line (tag @ '' '') then reset_stats_line line tag else line)"
proof -
  obtain r where r: "line = tag @ r"
    using assms(2) by (auto simp: startswith_iff)
  show ?thesis
    using prefix_flags_cases [OF assms(1)] unfolding r
    by (elim disjE conjE) (simp_all add: reset_dispatch_def)
qed

lemma tag_shape:
  assumes "(tag, flag) \<in> set prefix_flags"
  shows "tag \<noteq> [] \<and> (\<forall>c\<in>set tag. \<not> is_space c)"
  using prefix_flags_cases [OF assms]
  by (elim disjE conjE) (simp_all add: is_space_def)

lemma reset_tagged:
  assumes "startswith line (tag @ '' '')" and "tag \<noteq> []" and "\<forall>c\<in>set tag. \<not> is_space c"
    and "4 \<le> length (split line)"
  shows "reset_stats_line line tag = tag @ '' 0 0 0\<newline>''"
proof -
  obtain r where r: "line = tag @ CHR '' '' # r"
    using assms(1) by (auto simp: startswith_iff)
  obtain t ts where t: "tag = t # ts"
    using assms(2) by (cases tag) auto
  have sp: "is_space CHR '' ''" by (simp add: is_space_def)
  have "\<not> is_space t" using assms(3) t by simp
  then have d: "dropWhile is_space line = line" by (simp add: r t)
  have "takeWhile (\<lambda>x. \<not> is_space x) line = takeWhile (\<lambda>x. \<not> is_space x) tag"
    unfolding r using sp by (simp add: takeWhile_tail)
  also have "\<dots> = tag" using assms(3) by simp
  finally have tk: "takeWhile (\<lambda>x. \<not> is_space x) line = tag" .
  have ne: "split line \<noteq> []" using assms(4) by auto
  have first: "split line ! 0 = tag"
    using split_first_token [OF ne] d tk by simp
  have "line = [] @ tag @ (CHR '' '' # r)" using r by simp
  then have "contains line tag" unfolding contains_iff by blast
  then show ?thesis using assms(4) first by (simp add: reset_stats_line_def)
qed

lemma foldl_no_flags:
  "foldl (loop_body \<lparr>reset_day = False, reset_week = False, reset_month = False, reset_all = False\<rparr>) st ls
     = st\<lparr>new_lines := new_lines st @ ls,
          in_section := in_section (foldl (loop_body \<lparr>reset_day = False, reset_week = False,
              reset_month = False, reset_all = False\<rparr>) st ls)\<rparr>"
proof (induction ls arbitrary: st)
  case Nil
  show ?case by simp
next
  case (Cons l ls)
  show ?case
    by (subst foldl_Cons, subst Cons, simp add: loop_body_def reset_dispatch_def)
qed

lemma ex_lines: "process_lines day_only [''[SECTION]\<newline>'', ''DAYUP 1 2 3\<newline>'']
   = ([''[SECTION]\<newline>'', ''DAYUP 0 0 0\<newline>''], True)"
  by (simp add: process_lines_def scan_lines_def loop_body_def reset_dispatch_def
      reset_stats_line_def day_only_def is_space_def)

lemma in_section_foldl_sel:
  "in_section st = in_section st' \<Longrightarrow>
   in_section (foldl (loop_body sel) st ls) = in_section (foldl (loop_body sel') st' ls)"
proof (induction ls arbitrary: st st')
  case Nil
  then show ?case by simp
next
  case (Cons l ls)
  have "in_section (loop_body sel st l) = in_section (loop_body sel' st' l)"
    using Cons.prems by (simp add: in_section_loop_body)
  then show ?case using Cons.IH by simp
qed

lemma in_section_scan_lines_sel:
  "in_section (scan_lines sel ls) = in_section (scan_lines sel' ls)"
  unfolding scan_lines_def by (rule in_section_foldl_sel) simp

lemma fst_process_lines: "fst (process_lines sel ls) = new_lines (scan_lines sel ls)"
  by (simp add: process_lines_def Let_def)

lemma nth_process_lines:
  assumes "i < length ls"
  shows "fst (process_lines sel ls) ! i =
     (if contains (ls ! i) ''[SECTION]'' \<or> contains (ls ! i) ''[ENDSECTION]'' \<or>
         \<not> in_section (scan_lines sel (take i ls))
      then ls ! i else fst (reset_dispatch sel (ls ! i) False))"
  unfolding fst_process_lines nth_scan_lines [OF assms] new_lines_loop_body
  using fst_reset_dispatch [of sel "ls ! i" "modified (scan_lines sel (take i ls))" False]
  by simp

lemma example_scan: "scan_lines day_only example_record =
   \<lparr>modified = True,
    new_lines = [''[SECTION]\<newline>'', ''DAYUP 0 0 0\<newline>'', ''[ENDSECTION]\<newline>'', ''DAYUP 1 2 3\<newline>''],
    in_section = False\<rparr>"
  by (simp add: scan_lines_def loop_body_def reset_dispatch_def
      reset_stats_line_def day_only_def example_record_def is_space_def)

section \<open>When \<open>modified\<close> is set, and what a second run does\<close>

text \<open>
  The flag \<open>modified\<close> is set exactly when some line that is reached with the toggle on,
  and is not a marker line, takes a branch of the dispatch. A changed line implies the
  flag; and a second run over the output of a first run gives the same lines.
\<close>

lemma snd_reset_dispatch: "snd (reset_dispatch sel line m) \<longleftrightarrow> m \<or> selected sel line"
  by (auto simp: reset_dispatch_def selected_def prefix_flags_def)

lemma modified_foldl:
  "modified (foldl (loop_body sel) st ls) \<longleftrightarrow>
     modified st \<or>
     (\<exists>i<length ls. in_section (foldl (loop_body sel) st (take i ls)) \<and>
        \<not> is_marker (ls ! i) \<and> selected sel (ls ! i))"
proof (induction ls rule: rev_induct)
  case Nil
  show ?case by simp
next
  case (snoc l ls)
  let ?P = "\<lambda>xs i. in_section (foldl (loop_body sel) st (take i xs)) \<and>
        \<not> is_marker (xs ! i) \<and> selected sel (xs ! i)"
  have step: "modified (foldl (loop_body sel) st (ls @ [l])) \<longleftrightarrow>
      modified (foldl (loop_body sel) st ls) \<or>
      (in_section (foldl (loop_body sel) st ls) \<and> \<not> is_marker l \<and> selected sel l)"
    by (auto simp: modified_loop_body snd_reset_dispatch is_marker_def)
  have old: "?P (ls @ [l]) i \<longleftrightarrow> ?P ls i" if "i < length ls" for i
    using that by (simp add: nth_append)
  have new: "?P (ls @ [l]) (length ls) \<longleftrightarrow>
      in_section (foldl (loop_body sel) st ls) \<and> \<not> is_marker l \<and> selected sel l"
    by simp
  have "(\<exists>i<length (ls @ [l]). ?P (ls @ [l]) i) \<longleftrightarrow>
      (\<exists>i<length ls. ?P ls i) \<or> ?P (ls @ [l]) (length ls)"
  proof
    assume "\<exists>i<length (ls @ [l]). ?P (ls @ [l]) i"
    then obtain i where i: "i < length (ls @ [l])" "?P (ls @ [l]) i" by blast
    show "(\<exists>i<length ls. ?P ls i) \<or> ?P (ls @ [l]) (length ls)"
    proof (cases "i < length ls")
      case True
      then show ?thesis using i(2) old by blast
    next
      case False
      then have "i = length ls" using i(1) by simp
      then show ?thesis using i(2) by blast
    qed
  next
    assume "(\<exists>i<length ls. ?P ls i) \<or> ?P (ls @ [l]) (length ls)"
    then show "\<exists>i<length (ls @ [l]). ?P (ls @ [l]) i"
    proof
      assume "\<exists>i<length ls. ?P ls i"
      then obtain i where "i < length ls" "?P ls i" by blast
      then have "i < length (ls @ [l])" "?P (ls @ [l]) i" by (simp_all add: nth_append)
      then show ?thesis by blast
    next
      assume "?P (ls @ [l]) (length ls)"
      moreover have "length ls < length (ls @ [l])" by simp
      ultimately show ?thesis by blast
    qed
  qed
  then show ?case using step snoc new by blast
qed

lemma modified_iff:
  "snd (process_lines sel ls) \<longleftrightarrow>
     (\<exists>i<length ls. in_section (scan_lines sel (take i ls)) \<and>
        \<not> is_marker (ls ! i) \<and> selected sel (ls ! i))"
  unfolding process_lines_def Let_def scan_lines_def
  by (simp add: modified_foldl)

lemma changed_selected: "fst (reset_dispatch sel line m) \<noteq> line \<Longrightarrow> selected sel line"
  by (auto simp: reset_dispatch_def selected_def prefix_flags_def split: if_splits)

lemma changed_imp_modified:
  assumes "fst (process_lines sel ls) \<noteq> ls"
  shows "snd (process_lines sel ls)"
proof -
  have "length (fst (process_lines sel ls)) = length ls"
    by (simp add: fst_process_lines length_scan_lines)
  then obtain i where i: "i < length ls" "fst (process_lines sel ls) ! i \<noteq> ls ! i"
    using assms by (auto simp: list_eq_iff_nth_eq)
  have "in_section (scan_lines sel (take i ls)) \<and> \<not> is_marker (ls ! i) \<and> selected sel (ls ! i)"
    using i changed_selected [of sel "ls ! i" False]
    by (auto simp: nth_process_lines is_marker_def split: if_splits)
  then show ?thesis using i(1) unfolding modified_iff by blast
qed

lemma zero_line:
  assumes "(tag, flag) \<in> set prefix_flags"
  shows "\<not> contains (tag @ '' 0 0 0\<newline>'') ''[SECTION]'' \<and>
         \<not> contains (tag @ '' 0 0 0\<newline>'') ''[ENDSECTION]'' \<and>
         startswith (tag @ '' 0 0 0\<newline>'') (tag @ '' '') \<and>
         4 \<le> length (split (tag @ '' 0 0 0\<newline>''))"
  using prefix_flags_cases [OF assms]
  by (elim disjE conjE) (simp_all add: is_space_def)

lemma dispatch_result:
  "fst (reset_dispatch sel line m) = line \<or>
   (\<exists>tag flag. (tag, flag) \<in> set prefix_flags \<and> flag sel \<and>
      fst (reset_dispatch sel line m) = tag @ '' 0 0 0\<newline>'')"
proof (cases "selected sel line")
  case False
  then show ?thesis using changed_selected [of sel line m] by blast
next
  case True
  then obtain tag flag where t: "(tag, flag) \<in> set prefix_flags" "flag sel"
      "startswith line (tag @ '' '')"
    by (auto simp: selected_def)
  have d: "fst (reset_dispatch sel line m) = reset_stats_line line tag"
    using dispatch_tagged [OF t(1,3)] t(2) by simp
  show ?thesis
  proof (cases "4 \<le> length (split line)")
    case True
    then have "reset_stats_line line tag = tag @ '' 0 0 0\<newline>''"
      using reset_tagged [OF t(3)] tag_shape [OF t(1)] by simp
    then show ?thesis using d t by auto
  next
    case False
    then have "reset_stats_line line tag = line" by (simp add: reset_stats_line_def)
    then show ?thesis using d by simp
  qed
qed

lemma dispatch_idem:
  "fst (reset_dispatch sel (fst (reset_dispatch sel line m)) m') = fst (reset_dispatch sel line m)"
proof -
  consider "fst (reset_dispatch sel line m) = line"
    | tag flag where "(tag, flag) \<in> set prefix_flags" "flag sel"
      "fst (reset_dispatch sel line m) = tag @ '' 0 0 0\<newline>''"
    using dispatch_result [of sel line m] by blast
  then show ?thesis
  proof cases
    case 1
    then show ?thesis using fst_reset_dispatch [of sel line m' m] by simp
  next
    case 2
    note z = zero_line [OF 2(1)]
    have "fst (reset_dispatch sel (tag @ '' 0 0 0\<newline>'') m') =
        reset_stats_line (tag @ '' 0 0 0\<newline>'') tag"
      using dispatch_tagged [OF 2(1), of "tag @ '' 0 0 0\<newline>''" sel m'] z 2(2) by simp
    also have "\<dots> = tag @ '' 0 0 0\<newline>''"
      using reset_tagged [of "tag @ '' 0 0 0\<newline>''" tag] z tag_shape [OF 2(1)] by simp
    finally show ?thesis using 2(3) by simp
  qed
qed

lemma dispatch_no_marker:
  assumes "\<not> contains line ''[SECTION]''" and "\<not> contains line ''[ENDSECTION]''"
  shows "\<not> contains (fst (reset_dispatch sel line m)) ''[SECTION]'' \<and>
         \<not> contains (fst (reset_dispatch sel line m)) ''[ENDSECTION]''"
  using dispatch_result [of sel line m] assms zero_line by auto

lemma in_section_foldl_markers:
  assumes "list_all2 (\<lambda>x y. contains x ''[SECTION]'' = contains y ''[SECTION]'' \<and>
              contains x ''[ENDSECTION]'' = contains y ''[ENDSECTION]'') xs ys"
    and "in_section st = in_section st'"
  shows "in_section (foldl (loop_body sel) st xs) = in_section (foldl (loop_body sel) st' ys)"
  using assms
proof (induction xs ys arbitrary: st st' rule: list_all2_induct)
  case Nil
  then show ?case by simp
next
  case (Cons x xs y ys)
  have "in_section (loop_body sel st x) = in_section (loop_body sel st' y)"
    using Cons.hyps(1) Cons.prems by (simp add: in_section_loop_body)
  then show ?case using Cons.IH by simp
qed

lemma process_lines_markers:
  assumes "i < length ls"
  shows "contains (fst (process_lines sel ls) ! i) ''[SECTION]'' = contains (ls ! i) ''[SECTION]'' \<and>
         contains (fst (process_lines sel ls) ! i) ''[ENDSECTION]'' = contains (ls ! i) ''[ENDSECTION]''"
  using dispatch_no_marker [of "ls ! i" sel False]
  by (simp add: nth_process_lines [OF assms])

lemma lines_idempotent:
  "fst (process_lines sel (fst (process_lines sel ls))) = fst (process_lines sel ls)"
proof (rule nth_equalityI)
  let ?out = "fst (process_lines sel ls)"
  have len: "length ?out = length ls"
    by (simp add: fst_process_lines length_scan_lines)
  show "length (fst (process_lines sel ?out)) = length ?out"
    by (simp add: fst_process_lines length_scan_lines)
  fix i
  assume "i < length (fst (process_lines sel ?out))"
  then have i: "i < length ls" "i < length ?out"
    by (simp_all add: fst_process_lines length_scan_lines)
  have "list_all2 (\<lambda>x y. contains x ''[SECTION]'' = contains y ''[SECTION]'' \<and>
              contains x ''[ENDSECTION]'' = contains y ''[ENDSECTION]'') ?out ls"
    using len process_lines_markers by (simp add: list_all2_conv_all_nth)
  then have "list_all2 (\<lambda>x y. contains x ''[SECTION]'' = contains y ''[SECTION]'' \<and>
              contains x ''[ENDSECTION]'' = contains y ''[ENDSECTION]'') (take i ?out) (take i ls)"
    by (rule list_all2_takeI)
  then have sec: "in_section (scan_lines sel (take i ?out)) = in_section (scan_lines sel (take i ls))"
    unfolding scan_lines_def by (rule in_section_foldl_markers) simp
  show "fst (process_lines sel ?out) ! i = ?out ! i"
    using process_lines_markers [OF i(1), of sel] dispatch_idem [of sel "ls ! i" False False]
    unfolding nth_process_lines [OF i(2)] sec
    by (simp add: nth_process_lines [OF i(1)])
qed

text \<open>
  The dispatch asks for the tag and one space. A line whose tag is followed by a tab is
  left as it is, though \<open>split\<close> gives it four tokens.
\<close>

lemma tab_separated_line_kept:
  "split (''DAYUP'' @ [CHR 0x09] @ ''1 2 3\<newline>'') = [''DAYUP'', ''1'', ''2'', ''3''] \<and>
   process_lines day_only [''[SECTION]\<newline>'', ''DAYUP'' @ [CHR 0x09] @ ''1 2 3\<newline>'']
     = ([''[SECTION]\<newline>'', ''DAYUP'' @ [CHR 0x09] @ ''1 2 3\<newline>''], False)"
  by (simp add: process_lines_def scan_lines_def loop_body_def reset_dispatch_def
      day_only_def is_space_def)

section \<open>Verified claims\<close>

text \<open>
  C3. For every line and every tag (in particular each of the eight prefix tokens), the
  Line Resetter returns the first whitespace-delimited token of the line followed by
  \<open>" 0 0 0\n"\<close> when the line contains the tag as a substring and splits into four
  tokens or more, whatever follows the fourth token; otherwise, so also with fewer than
  four tokens, it returns the line as it is.
\<close>

theorem reset_stats_line_spec:
  "((\<exists>us vs. line = us @ tag @ vs) \<and> 4 \<le> length (split line) \<longrightarrow>
      reset_stats_line line tag =
        takeWhile (\<lambda>x. \<not> is_space x) (dropWhile is_space line) @ '' 0 0 0\<newline>'') \<and>
   (\<not> ((\<exists>us vs. line = us @ tag @ vs) \<and> 4 \<le> length (split line)) \<longrightarrow>
      reset_stats_line line tag = line)"
proof -
  have "split line \<noteq> []" if "4 \<le> length (split line)"
    using that by auto
  then show ?thesis
    by (auto simp: reset_stats_line_def contains_iff [symmetric] split_first_token Let_def)
qed

theorem reset_stats_line_spec_witness:
  "reset_stats_line ''DAYUP 5 102400 3600 77\<newline>'' ''DAYUP'' = ''DAYUP 0 0 0\<newline>'' \<and>
   reset_stats_line ''DAYUP 5\<newline>'' ''DAYUP'' = ''DAYUP 5\<newline>'' \<and>
   reset_stats_line ''WKUP 5 6 7\<newline>'' ''DAYUP'' = ''WKUP 5 6 7\<newline>''"
proof -
  have a: "contains ''DAYUP 5 102400 3600 77\<newline>'' ''DAYUP''" by simp
  have b: "4 \<le> length (split ''DAYUP 5 102400 3600 77\<newline>'')" by (simp add: is_space_def)
  have c: "\<not> 4 \<le> length (split ''DAYUP 5\<newline>'')" by (simp add: is_space_def)
  have d: "\<not> contains ''WKUP 5 6 7\<newline>'' ''DAYUP''" by simp
  have e: "takeWhile (\<lambda>x. \<not> is_space x) (dropWhile is_space ''DAYUP 5 102400 3600 77\<newline>'') = ''DAYUP''"
    by (simp add: is_space_def)
  show ?thesis
    using reset_stats_line_spec [of "''DAYUP 5 102400 3600 77\<newline>''" "''DAYUP''"]
      reset_stats_line_spec [of "''DAYUP 5\<newline>''" "''DAYUP''"]
      reset_stats_line_spec [of "''WKUP 5 6 7\<newline>''" "''DAYUP''"]
      a b c d e
    unfolding contains_iff by simp
qed

text \<open>
  C9. With all four flags false the Record Processor is the identity: the line sequence
  comes back unchanged with \<open>modified = False\<close>, and \<open>process_userfile\<close> leaves the
  file system as it was.
\<close>

theorem no_flags_identity:
  "process_lines \<lparr>reset_day = False, reset_week = False, reset_month = False, reset_all = False\<rparr> lines
     = (lines, False) \<and>
   fst (process_userfile fs userfile
     \<lparr>reset_day = False, reset_week = False, reset_month = False, reset_all = False\<rparr>) = fs"
proof -
  let ?sel = "\<lparr>reset_day = False, reset_week = False, reset_month = False, reset_all = False\<rparr>"
  have p: "process_lines ?sel ls = (ls, False)" for ls
    unfolding process_lines_def scan_lines_def Let_def
    by (subst foldl_no_flags, simp)+
  show ?thesis
    by (simp add: p process_userfile_def split: sum.split)
qed

text \<open>
  C1. The specification has \<open>modified\<close> hold exactly when some output line differs
  from its input line. The code sets the flag as soon as a branch of the dispatch is
  taken, also when the Line Resetter returns the line as it was, and never reads the
  \<open>original_line\<close> it saves: for a record whose day counter is already zero, the
  day selector returns the same lines and \<open>modified = True\<close>, and
  \<open>process_userfile\<close> writes the file.
\<close>

theorem modified_without_change:
  "process_lines day_only already_reset = (already_reset, True) \<and>
   snd (process_userfile (\<lambda>p. \<lparr>readlines = Inr already_reset, write_fails = None\<rparr>) ''user'' day_only)
     = ([Rewrite ''user'' already_reset], True)"
proof -
  have "process_lines day_only already_reset = (already_reset, True)"
    by (simp add: process_lines_def scan_lines_def loop_body_def reset_dispatch_def
      reset_stats_line_def day_only_def already_reset_def is_space_def)
  then show ?thesis by (simp add: process_userfile_def)
qed

text \<open>
  C2. The specification has a second run of the Record Processor, on the output of a
  first run, return the same lines and \<open>modified = False\<close>. On the code the lines are
  the same (\<open>lines_idempotent\<close>), and \<open>modified = True\<close> again: the line that was
  reset takes the same branch of the dispatch.
\<close>

theorem second_pass_modified:
  "process_lines day_only (fst (process_lines day_only example_record)) =
     (fst (process_lines day_only example_record), True)"
proof -
  have a: "fst (process_lines day_only example_record) =
      [''[SECTION]\<newline>'', ''DAYUP 0 0 0\<newline>'', ''[ENDSECTION]\<newline>'', ''DAYUP 1 2 3\<newline>'']"
    by (simp add: fst_process_lines example_scan)
  show ?thesis
    unfolding a
    by (simp add: process_lines_def scan_lines_def loop_body_def reset_dispatch_def
      reset_stats_line_def day_only_def is_space_def)
qed

text \<open>
  C4. A line outside the section region is emitted unchanged, for every record and every
  selector: when the toggle \<open>in_section\<close> is off after the lines before position \<open>i\<close>,
  the output line at \<open>i\<close> is the input line at \<open>i\<close>, whatever its prefix.
\<close>

theorem outside_section_unchanged:
  assumes "i < length lines" and "\<not> in_section (scan_lines sel (take i lines))"
  shows "fst (process_lines sel lines) ! i = lines ! i"
  using assms by (simp add: nth_process_lines)

theorem outside_section_unchanged_witness:
  "3 < length example_record \<and>
   \<not> in_section (scan_lines day_only (take 3 example_record)) \<and>
   fst (process_lines day_only example_record) ! 3 = ''DAYUP 1 2 3\<newline>''"
proof -
  have a: "3 < length example_record" by (simp add: example_record_def)
  have b: "\<not> in_section (scan_lines day_only (take 3 example_record))"
    by (simp add: scan_lines_def loop_body_def reset_dispatch_def
      reset_stats_line_def day_only_def example_record_def is_space_def)
  have c: "example_record ! 3 = ''DAYUP 1 2 3\<newline>''" by (simp add: example_record_def)
  show ?thesis
    using outside_section_unchanged [OF a b] a b c by simp
qed

text \<open>
  C5. Take a counter line in the section: the toggle is on when the loop reaches it, the
  line is not itself a marker line, and it starts with one of the eight prefix tokens.
  The specification has such a line, when its flag is set and it has four tokens or
  more, come out as the tag followed by \<open>" 0 0 0\n"\<close>. The dispatch of the code asks
  for the tag and one space: a line whose tag is followed by a tab has the four tokens
  and its flag set, and comes out as it went in.
\<close>

theorem counter_line_selectivity_counterexample:
  "1 < length tab_record \<and>
   in_section (scan_lines day_only (take 1 tab_record)) \<and>
   \<not> contains (tab_record ! 1) ''[SECTION]'' \<and>
   \<not> contains (tab_record ! 1) ''[ENDSECTION]'' \<and>
   (''DAYUP'', reset_day) \<in> set prefix_flags \<and>
   reset_day day_only \<and>
   startswith (tab_record ! 1) ''DAYUP'' \<and>
   split (tab_record ! 1) = [''DAYUP'', ''1'', ''2'', ''3''] \<and>
   fst (process_lines day_only tab_record) ! 1 = tab_record ! 1 \<and>
   fst (process_lines day_only tab_record) ! 1 \<noteq> ''DAYUP'' @ '' 0 0 0\<newline>''"
  by (simp add: tab_record_def process_lines_def scan_lines_def loop_body_def reset_dispatch_def
      day_only_def prefix_flags_def is_space_def)

text \<open>
  C5, as the code has it. For a counter line in the section: if the flag governing its
  token is unset, the output line is the input line; if the flag is set, the tag is
  followed by a space and the line has four tokens or more, the output line is the tag
  followed by \<open>" 0 0 0\n"\<close>; and the output line is the same under any selector that
  agrees on the governing flag, so the flags of the other tokens never alter the line.
\<close>

theorem counter_line_selectivity:
  assumes "i < length lines"
    and "in_section (scan_lines sel (take i lines))"
    and "\<not> contains (lines ! i) ''[SECTION]''"
    and "\<not> contains (lines ! i) ''[ENDSECTION]''"
    and "(tag, flag) \<in> set prefix_flags"
    and "startswith (lines ! i) tag"
  shows "(\<not> flag sel \<longrightarrow> fst (process_lines sel lines) ! i = lines ! i) \<and>
         (flag sel \<and> startswith (lines ! i) (tag @ '' '') \<and> 4 \<le> length (split (lines ! i)) \<longrightarrow>
            fst (process_lines sel lines) ! i = tag @ '' 0 0 0\<newline>'') \<and>
         (\<forall>sel'. flag sel' = flag sel \<longrightarrow>
            fst (process_lines sel' lines) ! i = fst (process_lines sel lines) ! i)"
proof -
  have out: "fst (process_lines s lines) ! i =
      (if flag s \<and> startswith (lines ! i) (tag @ '' '')
       then reset_stats_line (lines ! i) tag else lines ! i)" for s
  proof -
    have "in_section (scan_lines s (take i lines))"
      using assms(2) in_section_scan_lines_sel [of s "take i lines" sel] by simp
    then show ?thesis
      using assms(1,3,4) dispatch_prefixed [OF assms(5,6)] by (simp add: nth_process_lines)
  qed
  have "reset_stats_line (lines ! i) tag = tag @ '' 0 0 0\<newline>''"
    if "startswith (lines ! i) (tag @ '' '')" and "4 \<le> length (split (lines ! i))"
    using reset_tagged [OF that(1) _ _ that(2)] tag_shape [OF assms(5)] by simp
  then show ?thesis by (simp add: out)
qed

theorem counter_line_selectivity_witness:
  "1 < length example_record \<and>
   in_section (scan_lines day_only (take 1 example_record)) \<and>
   (''DAYUP'', reset_day) \<in> set prefix_flags \<and>
   startswith (example_record ! 1) ''DAYUP'' \<and>
   startswith (example_record ! 1) (''DAYUP'' @ '' '') \<and>
   fst (process_lines day_only example_record) ! 1 = ''DAYUP 0 0 0\<newline>'' \<and>
   fst (process_lines week_only example_record) ! 1 = ''DAYUP 1 2 3\<newline>'' \<and>
   startswith (tab_record ! 1) ''DAYUP'' \<and>
   fst (process_lines week_only tab_record) ! 1 = tab_record ! 1"
proof -
  have a: "1 < length example_record" by (simp add: example_record_def)
  have b: "in_section (scan_lines s (take 1 example_record))" for s
    by (simp add: scan_lines_def loop_body_def example_record_def)
  have c: "\<not> contains (example_record ! 1) ''[SECTION]''"
    by (simp add: example_record_def)
  have d: "\<not> contains (example_record ! 1) ''[ENDSECTION]''"
    by (simp add: example_record_def)
  have e: "(''DAYUP'', reset_day) \<in> set prefix_flags" by (simp add: prefix_flags_def)
  have f: "startswith (example_record ! 1) ''DAYUP''"
    by (simp add: example_record_def)
  have f': "startswith (example_record ! 1) (''DAYUP'' @ '' '')"
    by (simp add: example_record_def)
  have g: "4 \<le> length (split (example_record ! 1))"
    by (simp add: example_record_def is_space_def)
  have h: "example_record ! 1 = ''DAYUP 1 2 3\<newline>''" by (simp add: example_record_def)
  have dy: "reset_day day_only" and wk: "\<not> reset_day week_only"
    by (simp_all add: day_only_def week_only_def)
  have r1: "fst (process_lines day_only example_record) ! 1 = ''DAYUP 0 0 0\<newline>''"
    using counter_line_selectivity [OF a b c d e f, of day_only, THEN conjunct2, THEN conjunct1]
      dy f' g by simp
  have r2: "fst (process_lines week_only example_record) ! 1 = ''DAYUP 1 2 3\<newline>''"
    using counter_line_selectivity [OF a b c d e f, of week_only, THEN conjunct1] wk h by simp
  have ta: "1 < length tab_record" by (simp add: tab_record_def)
  have tb: "in_section (scan_lines week_only (take 1 tab_record))"
    by (simp add: scan_lines_def loop_body_def tab_record_def)
  have tc: "\<not> contains (tab_record ! 1) ''[SECTION]''"
    by (simp add: tab_record_def)
  have td: "\<not> contains (tab_record ! 1) ''[ENDSECTION]''"
    by (simp add: tab_record_def)
  have tf: "startswith (tab_record ! 1) ''DAYUP''"
    by (simp add: tab_record_def)
  have r3: "fst (process_lines week_only tab_record) ! 1 = tab_record ! 1"
    using counter_line_selectivity [OF ta tb tc td e tf, THEN conjunct1] wk by simp
  show ?thesis
    using a b [of day_only] e f f' r1 r2 tf r3 by (intro conjI)
qed

text \<open>
  C6. The output of the Record Processor has as many lines as the input, and the output
  line at each position comes from the input line at that position: it is that line, or
  the Line Resetter's result for that line and one of the eight tags. No line is added,
  removed or moved.
\<close>

theorem one_line_per_line:
  "length (fst (process_lines sel lines)) = length lines \<and>
   (\<forall>i<length lines.
      fst (process_lines sel lines) ! i = lines ! i \<or>
      (\<exists>tag\<in>set (map fst prefix_flags).
         fst (process_lines sel lines) ! i = reset_stats_line (lines ! i) tag))"
proof -
  have "fst (reset_dispatch sel l False) = l \<or>
      (\<exists>tag\<in>set (map fst prefix_flags). fst (reset_dispatch sel l False) = reset_stats_line l tag)" for l
    by (simp add: reset_dispatch_def prefix_flags_def)
  then show ?thesis
    by (simp add: nth_process_lines) (simp add: fst_process_lines length_scan_lines)
qed

theorem one_line_per_line_witness:
  "fst (process_lines day_only example_record) =
     [''[SECTION]\<newline>'', ''DAYUP 0 0 0\<newline>'', ''[ENDSECTION]\<newline>'', ''DAYUP 1 2 3\<newline>''] \<and>
   length (fst (process_lines day_only example_record)) = length example_record \<and>
   (fst (process_lines day_only example_record) ! 1 = example_record ! 1 \<or>
      (\<exists>tag\<in>set (map fst prefix_flags).
         fst (process_lines day_only example_record) ! 1 = reset_stats_line (example_record ! 1) tag))"
proof -
  have a: "1 < length example_record" by (simp add: example_record_def)
  note t = one_line_per_line [of day_only example_record]
  have b: "fst (process_lines day_only example_record) =
     [''[SECTION]\<newline>'', ''DAYUP 0 0 0\<newline>'', ''[ENDSECTION]\<newline>'', ''DAYUP 1 2 3\<newline>'']"
    by (simp add: fst_process_lines example_scan)
  show ?thesis
    using b conjunct1 [OF t] conjunct2 [OF t, THEN spec, THEN mp, OF a]
    by (intro conjI)
qed

text \<open>
  C7. When none of the four reset options is given, the selector that \<open>main\<close> derives
  sets the day flag, sets the week flag exactly when today is the week-start day (Sunday,
  or Monday with the option \<open>-e\<close>), sets the month flag exactly when the day of the
  month is 1, and leaves the all-time flag unset.
\<close>

theorem default_selector:
  assumes "\<not> opt_day a" and "\<not> opt_week a" and "\<not> opt_month a" and "\<not> opt_alltime a"
  shows "reset_day (fst (resolve_selector a now)) \<and>
         (reset_week (fst (resolve_selector a now)) \<longleftrightarrow>
            day_of_week now = (if opt_monday a then Monday else Sunday)) \<and>
         (reset_month (fst (resolve_selector a now)) \<longleftrightarrow> day now = 1) \<and>
         \<not> reset_all (fst (resolve_selector a now))"
  using assms by (cases "day_of_week now") (simp_all add: resolve_selector_def Let_def)

theorem default_selector_witness:
  "\<not> opt_day \<lparr>opt_monday = True, opt_day = False, opt_week = False, opt_month = False, opt_alltime = False\<rparr> \<and>
   fst (resolve_selector
     \<lparr>opt_monday = True, opt_day = False, opt_week = False, opt_month = False, opt_alltime = False\<rparr>
     \<lparr>day_of_week = Monday, day = 1\<rparr>)
   = \<lparr>reset_day = True, reset_week = True, reset_month = True, reset_all = False\<rparr> \<and>
   fst (resolve_selector
     \<lparr>opt_monday = False, opt_day = False, opt_week = False, opt_month = False, opt_alltime = False\<rparr>
     \<lparr>day_of_week = Sunday, day = 17\<rparr>)
   = \<lparr>reset_day = True, reset_week = True, reset_month = False, reset_all = False\<rparr> \<and>
   fst (resolve_selector
     \<lparr>opt_monday = False, opt_day = False, opt_week = False, opt_month = False, opt_alltime = False\<rparr>
     \<lparr>day_of_week = Monday, day = 17\<rparr>)
   = \<lparr>reset_day = True, reset_week = False, reset_month = False, reset_all = False\<rparr>"
  using default_selector [of
     "\<lparr>opt_monday = True, opt_day = False, opt_week = False, opt_month = False, opt_alltime = False\<rparr>"
     "\<lparr>day_of_week = Monday, day = 1\<rparr>"]
   default_selector [of
     "\<lparr>opt_monday = False, opt_day = False, opt_week = False, opt_month = False, opt_alltime = False\<rparr>"
     "\<lparr>day_of_week = Sunday, day = 17\<rparr>"]
   default_selector [of
     "\<lparr>opt_monday = False, opt_day = False, opt_week = False, opt_month = False, opt_alltime = False\<rparr>"
     "\<lparr>day_of_week = Monday, day = 17\<rparr>"]
  by (simp add: resolve_selector_def)

text \<open>
  C8. When processing a record raises an I/O error, \<open>process_userfile\<close> prints the
  path of the record with the text of the error and returns \<open>False\<close>; the batch loop
  then goes on with the remaining records, with the counter \<open>success_count\<close> as it was.
\<close>

theorem io_error_skips_record:
  assumes "raises_io_error fs userfile sel e"
  shows "snd (process_userfile fs userfile sel) =
           ([Print (''Error processing '' @ userfile @ '': '' @ message e)], False) \<and>
         batch sel (userfile # userfiles) (fs, evs, success_count) =
           batch sel userfiles
             (fst (process_userfile fs userfile sel),
              evs @ [Print (''Error processing '' @ userfile @ '': '' @ message e)],
              success_count)"
proof -
  have r: "snd (process_userfile fs userfile sel) =
           ([Print (''Error processing '' @ userfile @ '': '' @ message e)], False)"
    using assms
    by (auto simp: raises_io_error_def process_userfile_def error_report_def
          split: sum.splits prod.splits option.splits)
  obtain fs' evs' ok where p: "process_userfile fs userfile sel = (fs', evs', ok)"
    by (cases "process_userfile fs userfile sel") auto
  show ?thesis using r p by simp
qed

theorem io_error_skips_record_witness:
  "raises_io_error fs_example ''a'' day_only (IOError ''denied'') \<and>
   raises_io_error fs_example ''b'' day_only (IOError ''full'') \<and>
   snd (process_userfile fs_example ''a'' day_only) = ([Print ''Error processing a: denied''], False) \<and>
   snd (batch day_only [''a'', ''b'', ''c''] (fs_example, [], 0)) =
     ([Print ''Error processing a: denied'', Print ''Error processing b: full'',
       Rewrite ''c'' [''[SECTION]\<newline>'', ''DAYUP 0 0 0\<newline>'']], 1)"
proof -
  have a: "raises_io_error fs_example ''a'' day_only (IOError ''denied'')"
    by (simp add: raises_io_error_def fs_example_def)
  have pa: "fst (process_userfile fs_example ''a'' day_only) = fs_example"
    by (simp add: process_userfile_def fs_example_def)
  have b: "raises_io_error fs_example ''b'' day_only (IOError ''full'')"
    by (simp add: raises_io_error_def fs_example_def ex_lines)
  have c: "snd (process_userfile (fst (process_userfile fs_example ''b'' day_only)) ''c'' day_only)
      = ([Rewrite ''c'' [''[SECTION]\<newline>'', ''DAYUP 0 0 0\<newline>'']], True)"
    by (simp add: process_userfile_def fs_example_def ex_lines)
  obtain fs' where c': "process_userfile (fst (process_userfile fs_example ''b'' day_only)) ''c'' day_only
      = (fs', [Rewrite ''c'' [''[SECTION]\<newline>'', ''DAYUP 0 0 0\<newline>'']], True)"
    using c by (cases "process_userfile (fst (process_userfile fs_example ''b'' day_only)) ''c'' day_only") auto
  show ?thesis
    using io_error_skips_record [OF a, of "[''b'', ''c'']" "[]" 0]
      io_error_skips_record [OF b, of "[''c'']" "[Print ''Error processing a: denied'']" 0]
      a b pa c'
    by simp
qed

text \<open>
  C10. A line that contains both \<open>[SECTION]\<close> and \<open>[ENDSECTION]\<close> is treated as a
  section start, since the test for \<open>[SECTION]\<close> comes first: the toggle is set, the
  line is emitted unchanged and \<open>modified\<close> stays as it was.
\<close>

theorem section_marker_wins:
  assumes "contains line ''[SECTION]''" and "contains line ''[ENDSECTION]''"
  shows "loop_body sel st line = st\<lparr>in_section := True, new_lines := new_lines st @ [line]\<rparr>"
  using assms by (simp add: loop_body_def)

theorem section_marker_wins_witness:
  "contains ''[ENDSECTION] [SECTION]\<newline>'' ''[SECTION]'' \<and>
   contains ''[ENDSECTION] [SECTION]\<newline>'' ''[ENDSECTION]'' \<and>
   loop_body \<lparr>reset_day = True, reset_week = True, reset_month = True, reset_all = True\<rparr>
     \<lparr>modified = False, new_lines = [''x''], in_section = False\<rparr> ''[ENDSECTION] [SECTION]\<newline>''
   = \<lparr>modified = False, new_lines = [''x'', ''[ENDSECTION] [SECTION]\<newline>''], in_section = True\<rparr>"
proof -
  have a: "contains ''[ENDSECTION] [SECTION]\<newline>'' ''[SECTION]''" by simp
  have b: "contains ''[ENDSECTION] [SECTION]\<newline>'' ''[ENDSECTION]''" by simp
  show ?thesis
    using section_marker_wins [OF a b,
      of "\<lparr>reset_day = True, reset_week = True, reset_month = True, reset_all = True\<rparr>"
         "\<lparr>modified = False, new_lines = [''x''], in_section = False\<rparr>"] a b
    by simp
qed

end
